theory Spec2Isabelle
  imports Main "HOL-Library.Signed_Division"
begin

section \<open>Conversion of precision-sensor ADC readings to pressure\<close>

text \<open>
  The development embeds \<^verbatim>\<open>read_pressure_sensor.c\<close>. The C types are read on the
  platform the repository builds for (gcc under Debian, see the Dockerfile): \<^verbatim>\<open>int\<close> is
  32 bits wide, \<^verbatim>\<open>size_t\<close> is an unsigned 64-bit type. C integers are HOL integers; every
  place where the width of the C type can change a value is written out: a signed
  operation whose result does not fit is undefined in C and is the error
  \<open>SignedOverflow\<close> here, a conversion to a narrower signed type wraps around (the
  behaviour gcc defines), unsigned arithmetic is taken modulo \<open>2 ^ 64\<close>.
\<close>

subsection \<open>Machine integers\<close>

definition is_int32 :: "int \<Rightarrow> bool" where
  "is_int32 x \<longleftrightarrow> - (2 ^ 31) \<le> x \<and> x < 2 ^ 31"

definition is_int64 :: "int \<Rightarrow> bool" where
  "is_int64 x \<longleftrightarrow> - (2 ^ 63) \<le> x \<and> x < 2 ^ 63"

definition to_int16 :: "int \<Rightarrow> int" where
  "to_int16 x = (x + 2 ^ 15) mod 2 ^ 16 - 2 ^ 15"

definition to_int32 :: "int \<Rightarrow> int" where
  "to_int32 x = (x + 2 ^ 31) mod 2 ^ 32 - 2 ^ 31"

definition to_int64 :: "int \<Rightarrow> int" where
  "to_int64 x = (x + 2 ^ 63) mod 2 ^ 64 - 2 ^ 63"

definition to_uint64 :: "int \<Rightarrow> int" where
  "to_uint64 x = x mod 2 ^ 64"

subsection \<open>The calibration table\<close>

text \<open>
  \<^verbatim>\<open>PressureTableEntry\<close>: \<open>pressure\<close> is an \<^verbatim>\<open>int32_t\<close> (the pressure times 100),
  \<open>adc\<close> a \<^verbatim>\<open>uint16_t\<close>.
\<close>

record PressureTableEntry =
  pressure :: int
  adc :: int

abbreviation ent :: "int \<Rightarrow> int \<Rightarrow> PressureTableEntry" where
  "ent p a \<equiv> \<lparr>pressure = p, adc = a\<rparr>"

definition pressureTable :: "PressureTableEntry list" where
  "pressureTable =
   [ent 10000 1696, ent 11000 1909, ent 12000 2118,
    ent 13000 2272, ent 14000 2366, ent 15000 2448,
    ent 16000 2570, ent 17000 2745, ent 18000 2931,
    ent 19000 3073, ent 20000 3151, ent 21000 3200,
    ent 22000 3278, ent 23000 3411, ent 24000 3573,
    ent 25000 3706, ent 26000 3777, ent 27000 3808,
    ent 28000 3853, ent 29000 3955, ent 30000 4100,
    ent 31000 4236, ent 32000 4316, ent 33000 4348,
    ent 34000 4382, ent 35000 4468, ent 36000 4610,
    ent 37000 4762, ent 38000 4871, ent 39000 4927,
    ent 40000 4971, ent 41000 5058, ent 42000 5210,
    ent 43000 5390, ent 44000 5541, ent 45000 5639,
    ent 46000 5710, ent 47000 5812, ent 48000 5979,
    ent 49000 6190, ent 50000 6389, ent 51000 6534,
    ent 52000 6641, ent 53000 6762, ent 54000 6943,
    ent 55000 7177, ent 56000 7414, ent 57000 7604,
    ent 58000 7743, ent 59000 7877, ent 60000 8060,
    ent 61000 8302, ent 62000 8560, ent 63000 8778,
    ent 64000 8938, ent 65000 9074, ent 66000 9243,
    ent 67000 9470, ent 68000 9726, ent 69000 9954,
    ent 70000 10119, ent 71000 10244, ent 72000 10383,
    ent 73000 10577, ent 74000 10810, ent 75000 11028,
    ent 76000 11187, ent 77000 11292, ent 78000 11394,
    ent 79000 11542, ent 80000 11739, ent 81000 11937,
    ent 82000 12085, ent 83000 12170, ent 84000 12237,
    ent 85000 12340, ent 86000 12498, ent 87000 12675,
    ent 88000 12815, ent 89000 12893, ent 90000 12938,
    ent 91000 13007, ent 92000 13135, ent 93000 13299,
    ent 94000 13444, ent 95000 13531, ent 96000 13575,
    ent 97000 13631, ent 98000 13744, ent 99000 13908,
    ent 100000 14073]"

definition FIXED_POINT_ARITH :: int where
  "FIXED_POINT_ARITH = 100"

text \<open>
  \<^verbatim>\<open>sizeof(pressureTable) / sizeof(pressureTable[0])\<close>, the number of entries of the
  static table. The macro \<^verbatim>\<open>TABLE_SIZE\<close> is this count followed by \<^verbatim>\<open>- 1\<close>, with no
  parentheses around the whole: as an index, an initialiser or the right operand of
  \<^verbatim>\<open><=\<close> it is the last index, \<open>TABLE_SIZE\<close> below; after a \<^verbatim>\<open>/\<close> the division binds
  first, which is \<open>div_TABLE_SIZE\<close>.
\<close>

definition table_entries :: int where
  "table_entries = int (length pressureTable)"

definition TABLE_SIZE :: int where
  "TABLE_SIZE = table_entries - 1"

text \<open>
  \<^verbatim>\<open>x / TABLE_SIZE\<close> for an \<^verbatim>\<open>int64_t x\<close> is \<^verbatim>\<open>x / (sizeof ... / sizeof ...) - 1\<close>: the
  operands are converted to the unsigned 64-bit type of \<^verbatim>\<open>sizeof\<close>, divided, one is
  subtracted, and the result is converted back on assignment.
\<close>

definition div_TABLE_SIZE :: "int \<Rightarrow> int" where
  "div_TABLE_SIZE x = to_int64 (to_uint64 (to_uint64 x div table_entries - 1))"

datatype error = IndexOutOfBounds | DivisionByZero | SignedOverflow

text \<open>\<^verbatim>\<open>pressureTablePtr[i]\<close>: a read outside the table is undefined behaviour.\<close>

definition entry_at :: "PressureTableEntry list \<Rightarrow> int \<Rightarrow> PressureTableEntry option" where
  "entry_at tbl i = (if 0 \<le> i \<and> nat i < length tbl then Some (tbl ! nat i) else None)"

subsection \<open>In range: binary search and interpolation\<close>

text \<open>
  Lines 200 to 204: \<^verbatim>\<open>pressure = P1 + ((P2 - P1) / (ADC2 - ADC1)) * (adcReading - ADC1)\<close>,
  evaluated in \<^verbatim>\<open>int\<close>; \<^verbatim>\<open>/\<close> truncates towards zero.
\<close>

definition interpolate :: "PressureTableEntry \<Rightarrow> PressureTableEntry \<Rightarrow> int \<Rightarrow> error + int" where
  "interpolate e1 e2 adcReading =
     (let P1 = pressure e1; P2 = pressure e2; ADC1 = adc e1; ADC2 = adc e2 in
      if ADC2 - ADC1 = 0 then Inl DivisionByZero
      else if is_int32 (P2 - P1)
            \<and> is_int32 ((P2 - P1) sdiv (ADC2 - ADC1))
            \<and> is_int32 (adcReading - ADC1)
            \<and> is_int32 (((P2 - P1) sdiv (ADC2 - ADC1)) * (adcReading - ADC1))
            \<and> is_int32 (P1 + ((P2 - P1) sdiv (ADC2 - ADC1)) * (adcReading - ADC1))
      then Inr (P1 + ((P2 - P1) sdiv (ADC2 - ADC1)) * (adcReading - ADC1))
      else Inl SignedOverflow)"

text \<open>
  The locals of the search. \<open>pressure_local\<close> is the variable \<^verbatim>\<open>pressure\<close> of the
  function (the name \<open>pressure\<close> is the table entry's field).
\<close>

record search_state =
  searchWindowStart :: int
  searchWindowEnd :: int
  midPoint :: int
  readingFound :: int
  pressure_local :: int

text \<open>\<^verbatim>\<open>searchWindowStart + (searchWindowEnd - searchWindowStart) / 2\<close>, stored in an \<^verbatim>\<open>int16_t\<close>.\<close>

definition mid_of :: "int \<Rightarrow> int \<Rightarrow> int" where
  "mid_of start end = to_int16 (start + (end - start) sdiv 2)"

definition initial_search :: search_state where
  "initial_search =
     \<lparr>searchWindowStart = 0, searchWindowEnd = to_int16 TABLE_SIZE,
      midPoint = mid_of 0 (to_int16 TABLE_SIZE), readingFound = 0, pressure_local = 0\<rparr>"

text \<open>One pass through the body of \<^verbatim>\<open>while (readingFound == 0)\<close>, lines 192 to 215.\<close>

definition loop_body :: "int \<Rightarrow> PressureTableEntry list \<Rightarrow> search_state \<Rightarrow> error + search_state" where
  "loop_body adcReading tbl s =
     (case entry_at tbl (midPoint s) of
        None \<Rightarrow> Inl IndexOutOfBounds
      | Some m \<Rightarrow>
          if adcReading = adc m then
            Inr (s\<lparr>readingFound := 1, pressure_local := pressure m\<rparr>)
          else if midPoint s = searchWindowStart s then
            (case entry_at tbl (searchWindowStart s) of
               None \<Rightarrow> Inl IndexOutOfBounds
             | Some e1 \<Rightarrow>
                 (case entry_at tbl (searchWindowEnd s) of
                    None \<Rightarrow> Inl IndexOutOfBounds
                  | Some e2 \<Rightarrow>
                      (case interpolate e1 e2 adcReading of
                         Inl err \<Rightarrow> Inl err
                       | Inr p \<Rightarrow> Inr (s\<lparr>readingFound := 1, pressure_local := p\<rparr>))))
          else if adcReading < adc m then
            Inr (s\<lparr>searchWindowEnd := midPoint s,
                   midPoint := mid_of (searchWindowStart s) (midPoint s)\<rparr>)
          else if adcReading > adc m then
            Inr (s\<lparr>searchWindowStart := midPoint s,
                   midPoint := mid_of (midPoint s) (searchWindowEnd s)\<rparr>)
          else Inr s)"

text \<open>
  The \<^verbatim>\<open>while\<close> loop. Nothing in its form bounds the number of passes, so it is a
  partial function: \<open>None\<close> is the loop that never exits.
\<close>

partial_function (option) search_loop ::
  "int \<Rightarrow> PressureTableEntry list \<Rightarrow> search_state \<Rightarrow> (error + search_state) option" where
  "search_loop adcReading tbl s =
     (if readingFound s = 0 then
        (case loop_body adcReading tbl s of
           Inl err \<Rightarrow> Some (Inl err)
         | Inr s' \<Rightarrow> search_loop adcReading tbl s')
      else Some (Inr s))"

declare search_loop.simps [code]

text \<open>The same loop cut off after at most \<open>k\<close> passes, to count them.\<close>

fun search_passes :: "nat \<Rightarrow> int \<Rightarrow> PressureTableEntry list \<Rightarrow> search_state \<Rightarrow> error + search_state" where
  "search_passes 0 adcReading tbl s = Inr s"
| "search_passes (Suc k) adcReading tbl s =
     (if readingFound s = 0 then
        (case loop_body adcReading tbl s of
           Inl err \<Rightarrow> Inl err
         | Inr s' \<Rightarrow> search_passes k adcReading tbl s')
      else Inr s)"

text \<open>The loop is over: it has set \<^verbatim>\<open>readingFound\<close>, or it has hit undefined behaviour.\<close>

definition exited :: "error + search_state \<Rightarrow> bool" where
  "exited r = (case r of Inl err \<Rightarrow> True | Inr s \<Rightarrow> readingFound s \<noteq> 0)"

subsection \<open>Out of range: least-squares extrapolation\<close>

record lsq_sums =
  sumOfADC_iTimesP_i :: int
  sumOfADC_i :: int
  sumOfP_i :: int
  sumOfADC_iSquared :: int

text \<open>
  Lines 230 to 233 for one entry. The products are formed in \<^verbatim>\<open>int\<close> (both operands
  promote to it), the sums in \<^verbatim>\<open>int64_t\<close>.
\<close>

definition accumulate :: "PressureTableEntry \<Rightarrow> lsq_sums \<Rightarrow> error + lsq_sums" where
  "accumulate e acc =
     (let p = pressure e sdiv FIXED_POINT_ARITH in
      if is_int32 (adc e * p) \<and> is_int32 (adc e * adc e)
         \<and> is_int64 (sumOfADC_iTimesP_i acc + adc e * p)
         \<and> is_int64 (sumOfADC_i acc + adc e)
         \<and> is_int64 (sumOfP_i acc + p)
         \<and> is_int64 (sumOfADC_iSquared acc + adc e * adc e)
      then Inr \<lparr>sumOfADC_iTimesP_i = sumOfADC_iTimesP_i acc + adc e * p,
                sumOfADC_i = sumOfADC_i acc + adc e,
                sumOfP_i = sumOfP_i acc + p,
                sumOfADC_iSquared = sumOfADC_iSquared acc + adc e * adc e\<rparr>
      else Inl SignedOverflow)"

text \<open>
  \<^verbatim>\<open>for (int16_t i = 0; i <= TABLE_SIZE; i++)\<close>: the comparison is made in the unsigned
  type of \<^verbatim>\<open>sizeof\<close>.
\<close>

function sum_loop :: "PressureTableEntry list \<Rightarrow> int \<Rightarrow> lsq_sums \<Rightarrow> error + lsq_sums" where
  "sum_loop tbl i acc =
     (if to_uint64 i \<le> TABLE_SIZE then
        (case entry_at tbl i of
           None \<Rightarrow> Inl IndexOutOfBounds
         | Some e \<Rightarrow>
             (case accumulate e acc of
                Inl err \<Rightarrow> Inl err
              | Inr acc' \<Rightarrow> sum_loop tbl (to_int16 (i + 1)) acc'))
      else Inr acc)"
  by pat_completeness auto
termination
proof (relation "measure (\<lambda>(tbl, i, acc). nat (TABLE_SIZE + 1 - to_uint64 i))")
  show "wf (measure (\<lambda>(tbl, i, acc). nat (TABLE_SIZE + 1 - to_uint64 i)))"
    by simp
next
  fix tbl :: "PressureTableEntry list" and i :: int and acc acc' :: lsq_sums
  assume le: "to_uint64 i \<le> TABLE_SIZE"
  have ts: "TABLE_SIZE = 90"
    by (simp add: TABLE_SIZE_def table_entries_def pressureTable_def)
  define j where "j = i mod 2 ^ 64"
  have j: "0 \<le> j" "j \<le> 90"
    using le ts by (simp_all add: j_def to_uint64_def)
  have "i mod 2 ^ 16 = j mod 2 ^ 16"
    unfolding j_def by (simp add: mod_mod_cancel)
  then have i16: "i mod 2 ^ 16 = j"
    using j by simp
  have "(i + 1 + 2 ^ 15) mod 2 ^ 16 = (i mod 2 ^ 16 + (1 + 2 ^ 15)) mod 2 ^ 16"
    by (simp add: mod_add_left_eq add.assoc)
  also have "\<dots> = j + 1 + 2 ^ 15"
    using j i16 by simp
  finally have "to_int16 (i + 1) = j + 1"
    by (simp add: to_int16_def)
  then have "to_uint64 (to_int16 (i + 1)) = j + 1"
    using j by (simp add: to_uint64_def)
  then show "((tbl, to_int16 (i + 1), acc'), (tbl, i, acc))
        \<in> measure (\<lambda>(tbl, i, acc). nat (TABLE_SIZE + 1 - to_uint64 i))"
    using j ts by (simp add: to_uint64_def j_def)
qed

declare sum_loop.simps [simp del]

definition zero_sums :: lsq_sums where
  "zero_sums = \<lparr>sumOfADC_iTimesP_i = 0, sumOfADC_i = 0, sumOfP_i = 0, sumOfADC_iSquared = 0\<rparr>"

text \<open>Lines 235 to 238: each accumulator is overwritten by \<^verbatim>\<open>itself / TABLE_SIZE\<close>.\<close>

definition divide_sums :: "lsq_sums \<Rightarrow> lsq_sums" where
  "divide_sums acc =
     \<lparr>sumOfADC_iTimesP_i = div_TABLE_SIZE (sumOfADC_iTimesP_i acc),
      sumOfADC_i = div_TABLE_SIZE (sumOfADC_i acc),
      sumOfP_i = div_TABLE_SIZE (sumOfP_i acc),
      sumOfADC_iSquared = div_TABLE_SIZE (sumOfADC_iSquared acc)\<rparr>"

text \<open>
  The common shape of lines 239 and 240, in \<^verbatim>\<open>int64_t\<close>:
  \<^verbatim>\<open>(a - b * c) * FIXED_POINT_ARITH / (xx - x * x)\<close>.
\<close>

definition fit_quotient :: "int \<Rightarrow> int \<Rightarrow> int \<Rightarrow> int \<Rightarrow> int \<Rightarrow> error + int" where
  "fit_quotient a b c xx x =
     (if is_int64 (b * c) \<and> is_int64 (a - b * c)
         \<and> is_int64 ((a - b * c) * FIXED_POINT_ARITH)
         \<and> is_int64 (x * x) \<and> is_int64 (xx - x * x)
      then if xx - x * x = 0 then Inl DivisionByZero
           else if is_int64 ((a - b * c) * FIXED_POINT_ARITH sdiv (xx - x * x))
                then Inr ((a - b * c) * FIXED_POINT_ARITH sdiv (xx - x * x))
                else Inl SignedOverflow
      else Inl SignedOverflow)"

text \<open>
  Line 239:
  \<^verbatim>\<open>(sumOfADC_iTimesP_i - sumOfADC_i * sumOfP_i) * FIXED_POINT_ARITH / (...)\<close>.
\<close>

definition slope :: "lsq_sums \<Rightarrow> error + int" where
  "slope m =
     fit_quotient (sumOfADC_iTimesP_i m) (sumOfADC_i m) (sumOfP_i m)
       (sumOfADC_iSquared m) (sumOfADC_i m)"

text \<open>
  Line 240:
  \<^verbatim>\<open>(sumOfADC_iSquared * sumOfP_i - sumOfADC_i * sumOfADC_iTimesP_i) * FIXED_POINT_ARITH / (...)\<close>.
\<close>

definition intercept :: "lsq_sums \<Rightarrow> error + int" where
  "intercept m =
     (if is_int64 (sumOfADC_iSquared m * sumOfP_i m)
      then fit_quotient (sumOfADC_iSquared m * sumOfP_i m) (sumOfADC_i m) (sumOfADC_iTimesP_i m)
             (sumOfADC_iSquared m) (sumOfADC_i m)
      else Inl SignedOverflow)"

text \<open>
  The value of \<^verbatim>\<open>slope * adcReading + intercept\<close> (line 241), an \<^verbatim>\<open>int64_t\<close>, before it is
  stored.
\<close>

definition extrapolate_wide :: "int \<Rightarrow> PressureTableEntry list \<Rightarrow> error + int" where
  "extrapolate_wide adcReading tbl =
     (case sum_loop tbl 0 zero_sums of
        Inl err \<Rightarrow> Inl err
      | Inr acc \<Rightarrow>
          (case slope (divide_sums acc) of
             Inl err \<Rightarrow> Inl err
           | Inr sl \<Rightarrow>
               (case intercept (divide_sums acc) of
                  Inl err \<Rightarrow> Inl err
                | Inr ic \<Rightarrow>
                    if is_int64 (sl * adcReading) \<and> is_int64 (sl * adcReading + ic)
                    then Inr (sl * adcReading + ic)
                    else Inl SignedOverflow)))"

text \<open>The store into the \<^verbatim>\<open>int32_t pressure\<close> keeps the low 32 bits.\<close>

definition extrapolate :: "int \<Rightarrow> PressureTableEntry list \<Rightarrow> error + int" where
  "extrapolate adcReading tbl =
     (case extrapolate_wide adcReading tbl of
        Inl err \<Rightarrow> Inl err
      | Inr v \<Rightarrow> Inr (to_int32 v))"

subsection \<open>The conversion\<close>

text \<open>The test of line 167.\<close>

definition in_table_range :: "int \<Rightarrow> PressureTableEntry \<Rightarrow> PressureTableEntry \<Rightarrow> bool" where
  "in_table_range adcReading lo hi \<longleftrightarrow> adcReading \<ge> adc lo \<and> adcReading \<le> adc hi"

text \<open>\<^verbatim>\<open>return pressure\<close> after the search.\<close>

definition returned :: "(error + search_state) option \<Rightarrow> (error + int) option" where
  "returned res =
     (case res of
        None \<Rightarrow> None
      | Some (Inl err) \<Rightarrow> Some (Inl err)
      | Some (Inr s) \<Rightarrow> Some (Inr (pressure_local s)))"

definition ConvertADCReadingToPressure ::
  "int \<Rightarrow> PressureTableEntry list \<Rightarrow> (error + int) option" where
  "ConvertADCReadingToPressure adcReading pressureTablePtr =
     (case entry_at pressureTablePtr 0 of
        None \<Rightarrow> Some (Inl IndexOutOfBounds)
      | Some lo \<Rightarrow>
          (case entry_at pressureTablePtr TABLE_SIZE of
             None \<Rightarrow> Some (Inl IndexOutOfBounds)
           | Some hi \<Rightarrow>
               if in_table_range adcReading lo hi then
                 if adcReading = adc lo then Some (Inr (pressure lo))
                 else if adcReading = adc hi then Some (Inr (pressure hi))
                 else returned (search_loop adcReading pressureTablePtr initial_search)
               else Some (extrapolate adcReading pressureTablePtr)))"

subsection \<open>Predicates used in the statements\<close>

text \<open>
  A table of the size \<^verbatim>\<open>TABLE_SIZE\<close> describes, with strictly ascending ADC values
  (the order the binary search relies on).
\<close>

definition adc_ascending :: "PressureTableEntry list \<Rightarrow> bool" where
  "adc_ascending tbl \<longleftrightarrow>
     int (length tbl) = table_entries \<and> successively (\<lambda>e1 e2. adc e1 < adc e2) tbl"

text \<open>
  The search window brackets the reading: the indices are inside the table, in order,
  \<^verbatim>\<open>midPoint\<close> is their middle, and the reading lies strictly between the two ADC values.
\<close>

definition window_inv :: "int \<Rightarrow> PressureTableEntry list \<Rightarrow> search_state \<Rightarrow> bool" where
  "window_inv adcReading tbl s \<longleftrightarrow>
     0 \<le> searchWindowStart s \<and> searchWindowStart s < searchWindowEnd s
     \<and> searchWindowEnd s \<le> TABLE_SIZE
     \<and> midPoint s = searchWindowStart s + (searchWindowEnd s - searchWindowStart s) div 2
     \<and> adc (tbl ! nat (searchWindowStart s)) < adcReading
     \<and> adcReading < adc (tbl ! nat (searchWindowEnd s))"

text \<open>
  The value the interpolation formula gives between entries \<open>i\<close> and \<open>i + 1\<close> of the
  reference table.
\<close>

definition segment_value :: "nat \<Rightarrow> int \<Rightarrow> int" where
  "segment_value i r =
     pressure (pressureTable ! i)
     + ((pressure (pressureTable ! Suc i) - pressure (pressureTable ! i))
          sdiv (adc (pressureTable ! Suc i) - adc (pressureTable ! i)))
       * (r - adc (pressureTable ! i))"

subsection \<open>The least-squares line as the specification words it\<close>

text \<open>
  These follow the text of the specification, not the code: the four sums over all
  entries of the table, the division of each by a number of points \<open>N\<close>, and the line
  through the resulting means. The code is compared with them below.
\<close>

definition spec_sums :: "PressureTableEntry list \<Rightarrow> lsq_sums" where
  "spec_sums tbl =
     \<lparr>sumOfADC_iTimesP_i = sum_list (map (\<lambda>e. adc e * (pressure e sdiv FIXED_POINT_ARITH)) tbl),
      sumOfADC_i = sum_list (map adc tbl),
      sumOfP_i = sum_list (map (\<lambda>e. pressure e sdiv FIXED_POINT_ARITH) tbl),
      sumOfADC_iSquared = sum_list (map (\<lambda>e. adc e * adc e) tbl)\<rparr>"

definition spec_means :: "int \<Rightarrow> lsq_sums \<Rightarrow> lsq_sums" where
  "spec_means N acc =
     \<lparr>sumOfADC_iTimesP_i = sumOfADC_iTimesP_i acc sdiv N,
      sumOfADC_i = sumOfADC_i acc sdiv N,
      sumOfP_i = sumOfP_i acc sdiv N,
      sumOfADC_iSquared = sumOfADC_iSquared acc sdiv N\<rparr>"

definition spec_slope :: "lsq_sums \<Rightarrow> int" where
  "spec_slope m =
     (sumOfADC_iTimesP_i m - sumOfADC_i m * sumOfP_i m) * FIXED_POINT_ARITH
       sdiv (sumOfADC_iSquared m - sumOfADC_i m * sumOfADC_i m)"

definition spec_intercept :: "lsq_sums \<Rightarrow> int" where
  "spec_intercept m =
     (sumOfADC_iSquared m * sumOfP_i m - sumOfADC_i m * sumOfADC_iTimesP_i m) * FIXED_POINT_ARITH
       sdiv (sumOfADC_iSquared m - sumOfADC_i m * sumOfADC_i m)"

definition spec_extrapolate :: "int \<Rightarrow> int \<Rightarrow> PressureTableEntry list \<Rightarrow> int" where
  "spec_extrapolate N adcReading tbl =
     spec_slope (spec_means N (spec_sums tbl)) * adcReading
       + spec_intercept (spec_means N (spec_sums tbl))"

section \<open>Properties\<close>

subsection \<open>Constants and machine arithmetic\<close>


lemma table_entries_eq: "table_entries = 91"
  by (simp add: table_entries_def pressureTable_def)

lemma TABLE_SIZE_eq: "TABLE_SIZE = 90"
  by (simp add: TABLE_SIZE_def table_entries_eq)

lemma to_int16_small: "- 32768 \<le> x \<Longrightarrow> x \<le> 32767 \<Longrightarrow> to_int16 x = x"
  by (simp add: to_int16_def)

lemma sdiv_nonneg: "0 \<le> a \<Longrightarrow> 0 < b \<Longrightarrow> a sdiv b = a div (b::int)"
  by (cases "a = 0") (simp_all add: signed_divide_int_def sgn_if)

lemma mid_of_window: "0 \<le> a \<Longrightarrow> a \<le> b \<Longrightarrow> b \<le> 90 \<Longrightarrow> mid_of a b = a + (b - a) div 2"
proof -
  assume h: "0 \<le> a" "a \<le> b" "b \<le> 90"
  then have "(b - a) sdiv 2 = (b - a) div 2"
    by (simp add: sdiv_nonneg)
  moreover have "0 \<le> (b - a) div 2" "(b - a) div 2 \<le> 90"
    using h by simp_all
  ultimately show ?thesis
    using h by (simp add: mid_of_def to_int16_small)
qed

lemma initial_search_eq:
  "initial_search = \<lparr>searchWindowStart = 0, searchWindowEnd = 90, midPoint = 45,
      readingFound = 0, pressure_local = 0\<rparr>"
  by (simp add: initial_search_def TABLE_SIZE_eq to_int16_small mid_of_window)

lemma entry_at_inside:
  "int (length tbl) = table_entries \<Longrightarrow> 0 \<le> i \<Longrightarrow> i \<le> 90 \<Longrightarrow> entry_at tbl i = Some (tbl ! nat i)"
  by (simp add: entry_at_def table_entries_eq)

lemma window_inv_initial:
  "adc (tbl ! 0) < r \<Longrightarrow> r < adc (tbl ! 90) \<Longrightarrow> window_inv r tbl initial_search"
  by (simp add: window_inv_def initial_search_eq TABLE_SIZE_eq)

text \<open>What one pass does to a bracketing window.\<close>

lemma loop_body_cases:
  assumes len: "int (length tbl) = table_entries"
    and inv: "window_inv r tbl s"
  shows "(searchWindowEnd s = searchWindowStart s + 1 \<and> midPoint s = searchWindowStart s
           \<and> loop_body r tbl s =
               (case interpolate (tbl ! nat (searchWindowStart s)) (tbl ! nat (searchWindowEnd s)) r of
                  Inl err \<Rightarrow> Inl err
                | Inr p \<Rightarrow> Inr (s\<lparr>readingFound := 1, pressure_local := p\<rparr>)))
       \<or> (searchWindowStart s < midPoint s \<and> midPoint s < searchWindowEnd s
           \<and> r = adc (tbl ! nat (midPoint s))
           \<and> loop_body r tbl s = Inr (s\<lparr>readingFound := 1, pressure_local := pressure (tbl ! nat (midPoint s))\<rparr>))
       \<or> (searchWindowStart s < midPoint s \<and> midPoint s < searchWindowEnd s
           \<and> r < adc (tbl ! nat (midPoint s))
           \<and> loop_body r tbl s = Inr (s\<lparr>searchWindowEnd := midPoint s,
                 midPoint := searchWindowStart s + (midPoint s - searchWindowStart s) div 2\<rparr>))
       \<or> (searchWindowStart s < midPoint s \<and> midPoint s < searchWindowEnd s
           \<and> adc (tbl ! nat (midPoint s)) < r
           \<and> loop_body r tbl s = Inr (s\<lparr>searchWindowStart := midPoint s,
                 midPoint := midPoint s + (searchWindowEnd s - midPoint s) div 2\<rparr>))"
proof -
  let ?a = "searchWindowStart s" and ?b = "searchWindowEnd s" and ?m = "midPoint s"
  from inv have a: "0 \<le> ?a" "?a < ?b" "?b \<le> 90" and m: "?m = ?a + (?b - ?a) div 2"
    and lo: "adc (tbl ! nat ?a) < r" and hi: "r < adc (tbl ! nat ?b)"
    by (simp_all add: window_inv_def TABLE_SIZE_eq)
  have mb: "?a \<le> ?m" "?m < ?b" using a m by simp_all
  have ea: "entry_at tbl ?a = Some (tbl ! nat ?a)" "entry_at tbl ?b = Some (tbl ! nat ?b)"
    "entry_at tbl ?m = Some (tbl ! nat ?m)"
    using a mb len by (simp_all add: entry_at_inside)
  show ?thesis
  proof (cases "?m = ?a")
    case True
    then have "?b = ?a + 1" using a m by simp
    moreover have "r \<noteq> adc (tbl ! nat ?m)" using True lo by simp
    ultimately show ?thesis
      using True ea by (simp add: loop_body_def)
  next
    case False
    then have strict: "?a < ?m" using mb by simp
    have mids: "mid_of ?a ?m = ?a + (?m - ?a) div 2" "mid_of ?m ?b = ?m + (?b - ?m) div 2"
      using a mb by (simp_all add: mid_of_window)
    consider "r = adc (tbl ! nat ?m)" | "r < adc (tbl ! nat ?m)" | "adc (tbl ! nat ?m) < r"
      by linarith
    then show ?thesis
    proof cases
      case 1
      then show ?thesis using strict mb ea by (simp add: loop_body_def)
    next
      case 2
      then show ?thesis using strict mb ea False mids by (simp add: loop_body_def)
    next
      case 3
      then show ?thesis using strict mb ea False mids by (simp add: loop_body_def)
    qed
  qed
qed

lemma loop_body_step:
  assumes len: "int (length tbl) = table_entries"
    and inv: "window_inv r tbl s" and nf: "readingFound s = 0"
  shows "exited (loop_body r tbl s)
       \<or> (\<exists>s'. loop_body r tbl s = Inr s' \<and> readingFound s' = 0 \<and> window_inv r tbl s'
              \<and> searchWindowStart s < midPoint s
              \<and> 2 * (searchWindowEnd s' - searchWindowStart s')
                  \<le> searchWindowEnd s - searchWindowStart s + 1
              \<and> searchWindowStart s \<le> searchWindowStart s'
              \<and> searchWindowEnd s' \<le> searchWindowEnd s)"
proof -
  let ?a = "searchWindowStart s" and ?b = "searchWindowEnd s" and ?m = "midPoint s"
  from inv have a: "0 \<le> ?a" "?a < ?b" "?b \<le> 90" and m: "?m = ?a + (?b - ?a) div 2"
    and lo: "adc (tbl ! nat ?a) < r" and hi: "r < adc (tbl ! nat ?b)"
    by (simp_all add: window_inv_def TABLE_SIZE_eq)
  from loop_body_cases [OF len inv]
  consider
    (collapse) "loop_body r tbl s =
               (case interpolate (tbl ! nat ?a) (tbl ! nat ?b) r of
                  Inl err \<Rightarrow> Inl err
                | Inr p \<Rightarrow> Inr (s\<lparr>readingFound := 1, pressure_local := p\<rparr>))"
  | (exact) "loop_body r tbl s = Inr (s\<lparr>readingFound := 1, pressure_local := pressure (tbl ! nat ?m)\<rparr>)"
  | (lower) "?a < ?m" "?m < ?b" "r < adc (tbl ! nat ?m)"
       "loop_body r tbl s = Inr (s\<lparr>searchWindowEnd := ?m, midPoint := ?a + (?m - ?a) div 2\<rparr>)"
  | (upper) "?a < ?m" "?m < ?b" "adc (tbl ! nat ?m) < r"
       "loop_body r tbl s = Inr (s\<lparr>searchWindowStart := ?m, midPoint := ?m + (?b - ?m) div 2\<rparr>)"
    by blast
  then show ?thesis
  proof cases
    case collapse
    then show ?thesis by (simp add: exited_def split: sum.split)
  next
    case exact
    then show ?thesis by (simp add: exited_def)
  next
    case lower
    have "window_inv r tbl (s\<lparr>searchWindowEnd := ?m, midPoint := ?a + (?m - ?a) div 2\<rparr>)"
      using a lower lo by (simp add: window_inv_def TABLE_SIZE_eq)
    moreover have "2 * (?m - ?a) \<le> ?b - ?a + 1" using m by simp
    ultimately show ?thesis using lower nf by simp
  next
    case upper
    have "window_inv r tbl (s\<lparr>searchWindowStart := ?m, midPoint := ?m + (?b - ?m) div 2\<rparr>)"
      using a upper hi by (simp add: window_inv_def TABLE_SIZE_eq)
    moreover have "2 * (?b - ?m) \<le> ?b - ?a + 1" using m by simp
    ultimately show ?thesis using upper nf by simp
  qed
qed

lemma search_passes_exit:
  "int (length tbl) = table_entries \<Longrightarrow> window_inv r tbl s \<Longrightarrow> readingFound s = 0
     \<Longrightarrow> searchWindowEnd s - searchWindowStart s \<le> 2 ^ k
     \<Longrightarrow> exited (search_passes (Suc k) r tbl s)"
proof (induction k arbitrary: s)
  case 0
  then have "searchWindowEnd s = searchWindowStart s + 1"
    by (simp add: window_inv_def)
  then have "midPoint s = searchWindowStart s"
    using "0.prems"(2) by (simp add: window_inv_def)
  with loop_body_step [OF "0.prems"(1,2,3)] have "exited (loop_body r tbl s)"
    by auto
  then show ?case
    using "0.prems"(3) by (simp add: exited_def split: sum.splits)
next
  case (Suc k)
  from loop_body_step [OF Suc.prems(1,2,3)] show ?case
  proof
    assume "exited (loop_body r tbl s)"
    then show ?thesis
      using Suc.prems(3) by (cases "loop_body r tbl s") (simp_all add: exited_def)
  next
    assume "\<exists>s'. loop_body r tbl s = Inr s' \<and> readingFound s' = 0 \<and> window_inv r tbl s'
              \<and> searchWindowStart s < midPoint s
              \<and> 2 * (searchWindowEnd s' - searchWindowStart s')
                  \<le> searchWindowEnd s - searchWindowStart s + 1
              \<and> searchWindowStart s \<le> searchWindowStart s'
              \<and> searchWindowEnd s' \<le> searchWindowEnd s"
    then obtain s' where s': "loop_body r tbl s = Inr s'" "readingFound s' = 0" "window_inv r tbl s'"
      "2 * (searchWindowEnd s' - searchWindowStart s') \<le> searchWindowEnd s - searchWindowStart s + 1"
      by blast
    have "searchWindowEnd s' - searchWindowStart s' \<le> 2 ^ k"
      using s'(4) Suc.prems(4) by simp
    from Suc.IH [OF Suc.prems(1) s'(3) s'(2) this]
    show ?thesis using s'(1) Suc.prems(3) by simp
  qed
qed

lemma search_loop_passes:
  "exited (search_passes k r tbl s) \<Longrightarrow> search_loop r tbl s = Some (search_passes k r tbl s)"
proof (induction k arbitrary: s)
  case 0
  then show ?case by (subst search_loop.simps) (simp add: exited_def)
next
  case (Suc k)
  show ?case
  proof (cases "readingFound s = 0")
    case False
    then show ?thesis by (subst search_loop.simps) simp
  next
    case True
    show ?thesis
    proof (cases "loop_body r tbl s")
      case (Inl err)
      then show ?thesis using True by (subst search_loop.simps) simp
    next
      case (Inr s')
      with Suc.prems True have "exited (search_passes k r tbl s')" by simp
      from Suc.IH [OF this] show ?thesis
        using True Inr by (subst search_loop.simps) simp
    qed
  qed
qed

lemma search_passes_inv:
  "int (length tbl) = table_entries \<Longrightarrow> window_inv r tbl s0 \<Longrightarrow> search_passes j r tbl s0 = Inr s
     \<Longrightarrow> readingFound s = 0 \<Longrightarrow> window_inv r tbl s"
proof (induction j arbitrary: s0)
  case 0
  then show ?case by simp
next
  case (Suc j)
  show ?case
  proof (cases "readingFound s0 = 0")
    case False
    with Suc.prems show ?thesis by simp
  next
    case True
    from loop_body_step [OF Suc.prems(1,2) True] show ?thesis
    proof
      assume ex: "exited (loop_body r tbl s0)"
      show ?thesis
      proof (cases "loop_body r tbl s0")
        case (Inl err)
        with Suc.prems(3) True show ?thesis by simp
      next
        case (Inr s')
        with ex have "readingFound s' \<noteq> 0" by (simp add: exited_def)
        then have "search_passes j r tbl s' = Inr s'" by (cases j) simp_all
        with Suc.prems(3,4) True Inr \<open>readingFound s' \<noteq> 0\<close> show ?thesis by simp
      qed
    next
      assume "\<exists>s'. loop_body r tbl s0 = Inr s' \<and> readingFound s' = 0 \<and> window_inv r tbl s'
              \<and> searchWindowStart s0 < midPoint s0
              \<and> 2 * (searchWindowEnd s' - searchWindowStart s')
                  \<le> searchWindowEnd s0 - searchWindowStart s0 + 1
              \<and> searchWindowStart s0 \<le> searchWindowStart s'
              \<and> searchWindowEnd s' \<le> searchWindowEnd s0"
      then obtain s' where s': "loop_body r tbl s0 = Inr s'" "window_inv r tbl s'" by blast
      with Suc.prems(3) True have "search_passes j r tbl s' = Inr s" by simp
      from Suc.IH [OF Suc.prems(1) s'(2) this Suc.prems(4)] show ?thesis .
    qed
  qed
qed

lemma search_loop_next:
  "readingFound s = 0 \<Longrightarrow> loop_body r tbl s = Inr s' \<Longrightarrow> search_loop r tbl s = search_loop r tbl s'"
  by (subst search_loop.simps) simp

lemma search_loop_done: "readingFound s \<noteq> 0 \<Longrightarrow> search_loop r tbl s = Some (Inr s)"
  by (subst search_loop.simps) simp

lemma search_loop_error:
  "readingFound s = 0 \<Longrightarrow> loop_body r tbl s = Inl err \<Longrightarrow> search_loop r tbl s = Some (Inl err)"
  by (subst search_loop.simps) simp

lemma adc_ascending_nth:
  assumes "adc_ascending tbl" "0 \<le> i" "i < j" "j \<le> 90"
  shows "adc (tbl ! nat i) < adc (tbl ! nat j)"
proof -
  have "transp (\<lambda>e1 e2 :: PressureTableEntry. adc e1 < adc e2)"
    by (rule transpI) simp
  with assms(1) have "sorted_wrt (\<lambda>e1 e2. adc e1 < adc e2) tbl"
    by (simp add: adc_ascending_def successively_conv_sorted_wrt)
  moreover have "nat i < nat j" "nat j < length tbl"
    using assms by (simp_all add: adc_ascending_def table_entries_eq)
  ultimately show ?thesis
    by (rule sorted_wrt_nth_less)
qed

lemma adc_ascending_nth_le:
  assumes "adc_ascending tbl" "0 \<le> i" "i \<le> j" "j \<le> 90"
  shows "adc (tbl ! nat i) \<le> adc (tbl ! nat j)"
proof (cases "i = j")
  case True
  then show ?thesis by simp
next
  case False
  with assms adc_ascending_nth [of tbl i j] show ?thesis by simp
qed

lemma search_loop_collapse:
  assumes len: "int (length tbl) = table_entries" and inv: "window_inv r tbl s"
    and nf: "readingFound s = 0" and one: "searchWindowEnd s = searchWindowStart s + 1"
  shows "returned (search_loop r tbl s)
         = Some (interpolate (tbl ! nat (searchWindowStart s)) (tbl ! nat (searchWindowStart s + 1)) r)"
proof -
  let ?v = "interpolate (tbl ! nat (searchWindowStart s)) (tbl ! nat (searchWindowStart s + 1)) r"
  have "midPoint s = searchWindowStart s"
    using inv one by (simp add: window_inv_def)
  with loop_body_cases [OF len inv] one
  have body: "loop_body r tbl s =
      (case ?v of Inl err \<Rightarrow> Inl err | Inr p \<Rightarrow> Inr (s\<lparr>readingFound := 1, pressure_local := p\<rparr>))"
    by auto
  show ?thesis
  proof (cases ?v)
    case (Inl err)
    with body have "loop_body r tbl s = Inl err" by simp
    from search_loop_error [OF nf this] Inl show ?thesis by (simp add: returned_def)
  next
    case (Inr p)
    with body have "loop_body r tbl s = Inr (s\<lparr>readingFound := 1, pressure_local := p\<rparr>)" by simp
    from search_loop_next [OF nf this] Inr show ?thesis
      by (simp add: search_loop_done returned_def)
  qed
qed

lemma search_loop_bracket:
  assumes asc: "adc_ascending tbl"
  shows "window_inv r tbl s \<Longrightarrow> readingFound s = 0
     \<Longrightarrow> searchWindowStart s \<le> i \<Longrightarrow> i + 1 \<le> searchWindowEnd s
     \<Longrightarrow> adc (tbl ! nat i) < r \<Longrightarrow> r < adc (tbl ! nat (i + 1))
     \<Longrightarrow> returned (search_loop r tbl s) = Some (interpolate (tbl ! nat i) (tbl ! nat (i + 1)) r)"
proof (induction "nat (searchWindowEnd s - searchWindowStart s)" arbitrary: s rule: less_induct)
  case less
  let ?a = "searchWindowStart s" and ?b = "searchWindowEnd s" and ?m = "midPoint s"
  have len: "int (length tbl) = table_entries" using asc by (simp add: adc_ascending_def)
  note inv = less.prems(1) and nf = less.prems(2)
  from inv have a: "0 \<le> ?a" "?a < ?b" "?b \<le> 90"
    by (simp_all add: window_inv_def TABLE_SIZE_eq)
  have no_exact: "r \<noteq> adc (tbl ! nat k)" if "?a \<le> k" "k \<le> ?b" for k
  proof (cases "k \<le> i")
    case True
    from adc_ascending_nth_le [OF asc _ True] that a less.prems(4) less.prems(5)
    show ?thesis by simp
  next
    case False
    then have "i + 1 \<le> k" by simp
    from adc_ascending_nth_le [OF asc _ this] that a less.prems(3) less.prems(6)
    show ?thesis by simp
  qed
  from loop_body_cases [OF len inv]
  consider
    (collapse) "?b = ?a + 1"
  | (exact) "?a < ?m" "?m < ?b" "r = adc (tbl ! nat ?m)"
  | (lower) "?a < ?m" "?m < ?b" "r < adc (tbl ! nat ?m)"
       "loop_body r tbl s = Inr (s\<lparr>searchWindowEnd := ?m, midPoint := ?a + (?m - ?a) div 2\<rparr>)"
  | (upper) "?a < ?m" "?m < ?b" "adc (tbl ! nat ?m) < r"
       "loop_body r tbl s = Inr (s\<lparr>searchWindowStart := ?m, midPoint := ?m + (?b - ?m) div 2\<rparr>)"
    by blast
  then show ?case
  proof cases
    case collapse
    then have "i = ?a" using less.prems(3,4) by simp
    with search_loop_collapse [OF len inv nf collapse] show ?thesis by simp
  next
    case exact
    with no_exact [of ?m] show ?thesis by simp
  next
    case lower
    let ?s' = "s\<lparr>searchWindowEnd := ?m, midPoint := ?a + (?m - ?a) div 2\<rparr>"
    have "i + 1 \<le> ?m"
    proof (rule ccontr)
      assume "\<not> i + 1 \<le> ?m"
      then have "?m \<le> i" by simp
      from adc_ascending_nth_le [OF asc _ this] a lower less.prems(4,5)
      show False by simp
    qed
    moreover have "window_inv r tbl ?s'"
      using inv a lower by (simp add: window_inv_def TABLE_SIZE_eq)
    moreover have "nat (searchWindowEnd ?s' - searchWindowStart ?s') < nat (?b - ?a)"
      using lower by simp
    ultimately have "returned (search_loop r tbl ?s')
        = Some (interpolate (tbl ! nat i) (tbl ! nat (i + 1)) r)"
      using less.hyps [of ?s'] less.prems nf by simp
    with search_loop_next [OF nf lower(4)] show ?thesis by simp
  next
    case upper
    let ?s' = "s\<lparr>searchWindowStart := ?m, midPoint := ?m + (?b - ?m) div 2\<rparr>"
    have "?m \<le> i"
    proof (rule ccontr)
      assume "\<not> ?m \<le> i"
      then have "i + 1 \<le> ?m" by simp
      from adc_ascending_nth_le [OF asc _ this] a upper less.prems(3,6)
      show False by simp
    qed
    moreover have "window_inv r tbl ?s'"
      using inv a upper by (simp add: window_inv_def TABLE_SIZE_eq)
    moreover have "nat (searchWindowEnd ?s' - searchWindowStart ?s') < nat (?b - ?a)"
      using upper by simp
    ultimately have "returned (search_loop r tbl ?s')
        = Some (interpolate (tbl ! nat i) (tbl ! nat (i + 1)) r)"
      using less.hyps [of ?s'] less.prems nf by simp
    with search_loop_next [OF nf upper(4)] show ?thesis by simp
  qed
qed


lemma search_loop_exact:
  assumes asc: "adc_ascending tbl"
  shows "window_inv r tbl s \<Longrightarrow> readingFound s = 0
     \<Longrightarrow> searchWindowStart s < k \<Longrightarrow> k < searchWindowEnd s
     \<Longrightarrow> r = adc (tbl ! nat k)
     \<Longrightarrow> returned (search_loop r tbl s) = Some (Inr (pressure (tbl ! nat k)))"
proof (induction "nat (searchWindowEnd s - searchWindowStart s)" arbitrary: s rule: less_induct)
  case less
  let ?a = "searchWindowStart s" and ?b = "searchWindowEnd s" and ?m = "midPoint s"
  have len: "int (length tbl) = table_entries" using asc by (simp add: adc_ascending_def)
  note inv = less.prems(1) and nf = less.prems(2)
  from inv have a: "0 \<le> ?a" "?a < ?b" "?b \<le> 90"
    by (simp_all add: window_inv_def TABLE_SIZE_eq)
  from loop_body_cases [OF len inv]
  consider
    (collapse) "?b = ?a + 1"
  | (exact) "?a < ?m" "?m < ?b" "r = adc (tbl ! nat ?m)"
      "loop_body r tbl s = Inr (s\<lparr>readingFound := 1, pressure_local := pressure (tbl ! nat ?m)\<rparr>)"
  | (lower) "?a < ?m" "?m < ?b" "r < adc (tbl ! nat ?m)"
       "loop_body r tbl s = Inr (s\<lparr>searchWindowEnd := ?m, midPoint := ?a + (?m - ?a) div 2\<rparr>)"
  | (upper) "?a < ?m" "?m < ?b" "adc (tbl ! nat ?m) < r"
       "loop_body r tbl s = Inr (s\<lparr>searchWindowStart := ?m, midPoint := ?m + (?b - ?m) div 2\<rparr>)"
    by blast
  then show ?case
  proof cases
    case collapse
    with less.prems(3,4) show ?thesis by simp
  next
    case exact
    have "?m = k"
    proof (rule ccontr)
      assume "?m \<noteq> k"
      then consider "?m < k" | "k < ?m" by linarith
      then show False
      proof cases
        case 1
        from adc_ascending_nth [OF asc _ 1] a exact less.prems(4,5) show False by simp
      next
        case 2
        from adc_ascending_nth [OF asc _ 2] a exact less.prems(3,5) show False by simp
      qed
    qed
    with search_loop_next [OF nf exact(4)] show ?thesis
      by (simp add: search_loop_done returned_def)
  next
    case lower
    let ?s' = "s\<lparr>searchWindowEnd := ?m, midPoint := ?a + (?m - ?a) div 2\<rparr>"
    have "k < ?m"
    proof (rule ccontr)
      assume "\<not> k < ?m"
      then have "?m \<le> k" by simp
      from adc_ascending_nth_le [OF asc _ this] a lower less.prems(4,5)
      show False by simp
    qed
    moreover have "window_inv r tbl ?s'"
      using inv a lower by (simp add: window_inv_def TABLE_SIZE_eq)
    moreover have "nat (searchWindowEnd ?s' - searchWindowStart ?s') < nat (?b - ?a)"
      using lower by simp
    ultimately have "returned (search_loop r tbl ?s') = Some (Inr (pressure (tbl ! nat k)))"
      using less.hyps [of ?s'] less.prems nf by simp
    with search_loop_next [OF nf lower(4)] show ?thesis by simp
  next
    case upper
    let ?s' = "s\<lparr>searchWindowStart := ?m, midPoint := ?m + (?b - ?m) div 2\<rparr>"
    have "?m < k"
    proof (rule ccontr)
      assume "\<not> ?m < k"
      then have "k \<le> ?m" by simp
      from adc_ascending_nth_le [OF asc _ this] a upper less.prems(3,5)
      show False by simp
    qed
    moreover have "window_inv r tbl ?s'"
      using inv a upper by (simp add: window_inv_def TABLE_SIZE_eq)
    moreover have "nat (searchWindowEnd ?s' - searchWindowStart ?s') < nat (?b - ?a)"
      using upper by simp
    ultimately have "returned (search_loop r tbl ?s') = Some (Inr (pressure (tbl ! nat k)))"
      using less.hyps [of ?s'] less.prems nf by simp
    with search_loop_next [OF nf upper(4)] show ?thesis by simp
  qed
qed

text \<open>The conversion on an ascending table, by position of the reading.\<close>

lemma convert_entry:
  assumes asc: "adc_ascending tbl" and k: "0 \<le> k" "k \<le> 90"
  shows "ConvertADCReadingToPressure (adc (tbl ! nat k)) tbl = Some (Inr (pressure (tbl ! nat k)))"
proof -
  have len: "int (length tbl) = table_entries" using asc by (simp add: adc_ascending_def)
  have e: "entry_at tbl 0 = Some (tbl ! 0)" "entry_at tbl TABLE_SIZE = Some (tbl ! 90)"
    using entry_at_inside [of tbl 0] entry_at_inside [of tbl 90] len
    by (simp_all add: TABLE_SIZE_eq)
  let ?r = "adc (tbl ! nat k)"
  have rng: "adc (tbl ! 0) \<le> ?r" "?r \<le> adc (tbl ! 90)"
    using adc_ascending_nth_le [of tbl 0 k] adc_ascending_nth_le [of tbl k 90] asc k
    by simp_all
  consider "k = 0" | "k = 90" | "0 < k" "k < 90" using k by linarith
  then show ?thesis
  proof cases
    case 1
    then show ?thesis using e rng by (simp add: ConvertADCReadingToPressure_def in_table_range_def)
  next
    case 2
    have "adc (tbl ! 0) < adc (tbl ! 90)"
      using adc_ascending_nth [of tbl 0 90] asc by simp
    then show ?thesis using 2 e rng by (simp add: ConvertADCReadingToPressure_def in_table_range_def)
  next
    case 3
    have lt: "adc (tbl ! 0) < ?r" "?r < adc (tbl ! 90)"
      using adc_ascending_nth [of tbl 0 k] adc_ascending_nth [of tbl k 90] asc 3
      by simp_all
    have "returned (search_loop ?r tbl initial_search) = Some (Inr (pressure (tbl ! nat k)))"
      using search_loop_exact [OF asc window_inv_initial [OF lt], of k] 3
      by (simp add: initial_search_eq)
    then show ?thesis using e lt by (simp add: ConvertADCReadingToPressure_def in_table_range_def)
  qed
qed

lemma convert_between:
  assumes asc: "adc_ascending tbl" and i: "0 \<le> i" "i < 90"
    and r: "adc (tbl ! nat i) < r" "r < adc (tbl ! nat (i + 1))"
  shows "ConvertADCReadingToPressure r tbl = Some (interpolate (tbl ! nat i) (tbl ! nat (i + 1)) r)"
proof -
  have len: "int (length tbl) = table_entries" using asc by (simp add: adc_ascending_def)
  have e: "entry_at tbl 0 = Some (tbl ! 0)" "entry_at tbl TABLE_SIZE = Some (tbl ! 90)"
    using entry_at_inside [of tbl 0] entry_at_inside [of tbl 90] len
    by (simp_all add: TABLE_SIZE_eq)
  have lt: "adc (tbl ! 0) < r" "r < adc (tbl ! 90)"
    using adc_ascending_nth_le [of tbl 0 i] adc_ascending_nth_le [of tbl "i + 1" 90] asc i r
    by simp_all
  have "returned (search_loop r tbl initial_search) = Some (interpolate (tbl ! nat i) (tbl ! nat (i + 1)) r)"
    using search_loop_bracket [OF asc window_inv_initial [OF lt], of i] i r
    by (simp add: initial_search_eq)
  then show ?thesis using e lt by (simp add: ConvertADCReadingToPressure_def in_table_range_def)
qed

subsection \<open>The reference table\<close>

lemma pressureTable_ascending: "adc_ascending pressureTable"
  by (simp add: adc_ascending_def table_entries_eq pressureTable_def)

lemma pressureTable_length: "length pressureTable = 91"
  by (simp add: pressureTable_def)

lemma pressureTable_pressures:
  "map pressure pressureTable = map (\<lambda>i. 10000 + 1000 * int i) [0..<91]"
  by code_simp

lemma pressureTable_pressure: "i < 91 \<Longrightarrow> pressure (pressureTable ! i) = 10000 + 1000 * int i"
proof -
  assume i: "i < 91"
  then have "pressure (pressureTable ! i) = map pressure pressureTable ! i"
    by (simp add: pressureTable_length)
  also have "\<dots> = 10000 + 1000 * int i"
    using i by (simp only: pressureTable_pressures) simp
  finally show ?thesis .
qed

lemma pressureTable_first: "pressureTable ! 0 = ent 10000 1696"
  by (simp add: pressureTable_def)

lemma pressureTable_last: "pressureTable ! 90 = ent 100000 14073"
  by (simp add: pressureTable_def)

lemma pressureTable_adc_bounds:
  assumes "i < 91"
  shows "1696 \<le> adc (pressureTable ! i)" "adc (pressureTable ! i) \<le> 14073"
  using adc_ascending_nth_le [OF pressureTable_ascending, of 0 "int i"]
    adc_ascending_nth_le [OF pressureTable_ascending, of "int i" 90] assms
  by (simp_all add: pressureTable_first pressureTable_last)

lemma quotient_times_bounds:
  fixes n d x :: int
  assumes "0 \<le> n" "0 < d" "0 \<le> x" "x \<le> d"
  shows "0 \<le> (n div d) * x" "(n div d) * x \<le> n"
proof -
  have q: "0 \<le> n div d" using assms by (simp add: pos_imp_zdiv_nonneg_iff)
  then show "0 \<le> (n div d) * x" using assms by simp
  have "(n div d) * x \<le> (n div d) * d"
    using q assms by (simp add: mult_left_mono)
  also have "\<dots> = n - n mod d"
    by (simp add: minus_mod_eq_div_mult)
  also have "\<dots> \<le> n" using assms by simp
  finally show "(n div d) * x \<le> n" .
qed

lemma segment_value_eq:
  assumes "i < 90"
  shows "segment_value i r = 10000 + 1000 * int i
     + (1000 div (adc (pressureTable ! Suc i) - adc (pressureTable ! i))) * (r - adc (pressureTable ! i))"
proof -
  have "adc (pressureTable ! i) < adc (pressureTable ! Suc i)"
    using adc_ascending_nth [OF pressureTable_ascending, of "int i" "int (Suc i)"] assms
    by (simp add: nat_add_distrib)
  then show ?thesis
    using assms by (simp add: segment_value_def pressureTable_pressure sdiv_nonneg)
qed

lemma segment_value_bounds:
  assumes i: "i < 90" and r: "adc (pressureTable ! i) \<le> r" "r \<le> adc (pressureTable ! Suc i)"
  shows "10000 + 1000 * int i \<le> segment_value i r" "segment_value i r \<le> 11000 + 1000 * int i"
proof -
  let ?d = "adc (pressureTable ! Suc i) - adc (pressureTable ! i)"
  have d: "0 < ?d"
    using adc_ascending_nth [OF pressureTable_ascending, of "int i" "int (Suc i)"] i
    by (simp add: nat_add_distrib)
  from quotient_times_bounds [of 1000 ?d "r - adc (pressureTable ! i)"] d r
  have "0 \<le> (1000 div ?d) * (r - adc (pressureTable ! i))"
    "(1000 div ?d) * (r - adc (pressureTable ! i)) \<le> 1000"
    by simp_all
  then show "10000 + 1000 * int i \<le> segment_value i r" "segment_value i r \<le> 11000 + 1000 * int i"
    using i by (simp_all add: segment_value_eq)
qed

lemma interpolate_segment:
  assumes i: "i < 90" and r: "adc (pressureTable ! i) < r" "r < adc (pressureTable ! Suc i)"
  shows "interpolate (pressureTable ! i) (pressureTable ! Suc i) r = Inr (segment_value i r)"
proof -
  let ?A1 = "adc (pressureTable ! i)" and ?A2 = "adc (pressureTable ! Suc i)"
  let ?q = "1000 sdiv (?A2 - ?A1)"
  have d: "0 < ?A2 - ?A1" using r by simp
  have A: "1696 \<le> ?A1" "?A1 \<le> 14073"
    using pressureTable_adc_bounds [of i] i by simp_all
  have P: "pressure (pressureTable ! i) = 10000 + 1000 * int i"
    "pressure (pressureTable ! Suc i) = 11000 + 1000 * int i"
    using i by (simp_all add: pressureTable_pressure)
  have q: "?q = 1000 div (?A2 - ?A1)" using d by (simp add: sdiv_nonneg)
  have qb: "0 \<le> ?q" "?q \<le> 1000"
    using quotient_times_bounds [of 1000 "?A2 - ?A1" 1] d by (simp_all add: q)
  define t where "t = ?q * (r - ?A1)"
  have m: "0 \<le> t" "t \<le> 1000"
    using quotient_times_bounds [of 1000 "?A2 - ?A1" "r - ?A1"] d r by (simp_all add: q t_def)
  have v: "segment_value i r = 10000 + 1000 * int i + t"
    by (simp add: segment_value_def P t_def)
  have A2: "?A2 \<le> 14073"
    using pressureTable_adc_bounds [of "Suc i"] i by simp
  have "is_int32 1000" "is_int32 ?q" "is_int32 (r - ?A1)" "is_int32 t"
    "is_int32 (10000 + 1000 * int i + t)"
    using qb m i r A A2 unfolding is_int32_def by simp_all
  then show ?thesis
    using d by (simp add: interpolate_def P v Let_def flip: t_def)
qed

lemma convert_segment:
  assumes i: "i < 90" and r: "adc (pressureTable ! i) \<le> r" "r < adc (pressureTable ! Suc i)"
  shows "ConvertADCReadingToPressure r pressureTable = Some (Inr (segment_value i r))"
proof (cases "r = adc (pressureTable ! i)")
  case True
  have "segment_value i r = pressure (pressureTable ! i)"
    using True by (simp add: segment_value_def)
  with convert_entry [OF pressureTable_ascending, of "int i"] True i show ?thesis by simp
next
  case False
  with r have lt: "adc (pressureTable ! i) < r" by simp
  from convert_between [OF pressureTable_ascending, of "int i" r] i lt r(2)
  have "ConvertADCReadingToPressure r pressureTable
      = Some (interpolate (pressureTable ! i) (pressureTable ! Suc i) r)"
    by (simp add: nat_add_distrib)
  with interpolate_segment [OF i lt r(2)] show ?thesis by simp
qed

lemma segment_exists:
  "adc (tbl ! 0) \<le> r \<Longrightarrow> r < adc (tbl ! n) \<Longrightarrow> \<exists>i<n. adc (tbl ! i) \<le> r \<and> r < adc (tbl ! Suc i)"
proof (induction n)
  case 0
  then show ?case by simp
next
  case (Suc n)
  show ?case
  proof (cases "adc (tbl ! n) \<le> r")
    case True
    with Suc.prems show ?thesis by blast
  next
    case False
    with Suc.IH Suc.prems(1) obtain i where "i < n" "adc (tbl ! i) \<le> r" "r < adc (tbl ! Suc i)"
      by auto
    then show ?thesis using less_Suc_eq by blast
  qed
qed

lemma sum_loop_pressureTable:
  "sum_loop pressureTable 0 zero_sums =
     Inr \<lparr>sumOfADC_iTimesP_i = 476407470, sumOfADC_i = 701799, sumOfP_i = 50050,
          sumOfADC_iSquared = 6729358557\<rparr>"
  by code_simp

lemma divide_sums_pressureTable:
  "divide_sums \<lparr>sumOfADC_iTimesP_i = 476407470, sumOfADC_i = 701799, sumOfP_i = 50050,
          sumOfADC_iSquared = 6729358557\<rparr>
   = \<lparr>sumOfADC_iTimesP_i = 5235245, sumOfADC_i = 7711, sumOfP_i = 549,
          sumOfADC_iSquared = 73948994\<rparr>"
  by (simp add: divide_sums_def div_TABLE_SIZE_def to_int64_def to_uint64_def table_entries_eq)

lemma slope_pressureTable:
  "slope \<lparr>sumOfADC_iTimesP_i = 5235245, sumOfADC_i = 7711, sumOfP_i = 549,
          sumOfADC_iSquared = 73948994\<rparr> = Inr 6"
  by (simp add: slope_def fit_quotient_def is_int64_def FIXED_POINT_ARITH_def signed_divide_int_def)

lemma intercept_pressureTable:
  "intercept \<lparr>sumOfADC_iTimesP_i = 5235245, sumOfADC_i = 7711, sumOfP_i = 549,
          sumOfADC_iSquared = 73948994\<rparr> = Inr 1580"
  by (simp add: intercept_def fit_quotient_def is_int64_def FIXED_POINT_ARITH_def signed_divide_int_def)

lemma extrapolate_wide_pressureTable:
  "is_int32 r \<Longrightarrow> extrapolate_wide r pressureTable = Inr (6 * r + 1580)"
  by (simp add: extrapolate_wide_def sum_loop_pressureTable divide_sums_pressureTable
      slope_pressureTable intercept_pressureTable is_int32_def is_int64_def)

lemma convert_outside:
  assumes "r < 1696 \<or> 14073 < r"
  shows "ConvertADCReadingToPressure r pressureTable = Some (extrapolate r pressureTable)"
proof -
  have "entry_at pressureTable 0 = Some (ent 10000 1696)"
    "entry_at pressureTable TABLE_SIZE = Some (ent 100000 14073)"
    using entry_at_inside [of pressureTable 0] entry_at_inside [of pressureTable 90]
    by (simp_all add: table_entries_eq pressureTable_length TABLE_SIZE_eq pressureTable_first pressureTable_last)
  then show ?thesis
    using assms by (auto simp add: ConvertADCReadingToPressure_def in_table_range_def)
qed

lemma to_int32_range: "is_int32 (to_int32 x)"
  by (simp add: is_int32_def to_int32_def)

lemma spec_sums_pressureTable:
  "spec_sums pressureTable =
     \<lparr>sumOfADC_iTimesP_i = 476407470, sumOfADC_i = 701799, sumOfP_i = 50050,
          sumOfADC_iSquared = 6729358557\<rparr>"
  by code_simp

lemma loop_body_shrinks:
  assumes len: "int (length tbl) = table_entries" and inv: "window_inv r tbl s"
    and nf: "readingFound s = 0" and body: "loop_body r tbl s = Inr s'" and nf': "readingFound s' = 0"
  shows "searchWindowEnd s' - searchWindowStart s' < searchWindowEnd s - searchWindowStart s"
proof -
  from loop_body_step [OF len inv nf] body nf'
  have "searchWindowStart s < midPoint s"
    and "2 * (searchWindowEnd s' - searchWindowStart s') \<le> searchWindowEnd s - searchWindowStart s + 1"
    by (auto simp add: exited_def)
  moreover from inv have "midPoint s = searchWindowStart s + (searchWindowEnd s - searchWindowStart s) div 2"
    by (simp add: window_inv_def)
  ultimately show ?thesis by simp
qed

lemma search_passes_14000:
  "search_passes 7 14000 pressureTable initial_search =
     Inr \<lparr>searchWindowStart = 89, searchWindowEnd = 90, midPoint = 89, readingFound = 0,
          pressure_local = 0\<rparr>"
  "search_passes 8 14000 pressureTable initial_search =
     Inr \<lparr>searchWindowStart = 89, searchWindowEnd = 90, midPoint = 89, readingFound = 1,
          pressure_local = 99552\<rparr>"
  by code_simp+

section \<open>The claims\<close>

text \<open>
  C1. For every entry of the reference table, the conversion of the entry's ADC value
  is the entry's pressure; this includes the first and the last entry.
\<close>

theorem exact_match:
  "i < length pressureTable \<Longrightarrow>
     ConvertADCReadingToPressure (adc (pressureTable ! i)) pressureTable
       = Some (Inr (pressure (pressureTable ! i)))"
  using convert_entry [OF pressureTable_ascending, of "int i"]
  by (simp add: pressureTable_length)

theorem exact_match_witness:
  "(0::nat) < length pressureTable \<and> (90::nat) < length pressureTable
   \<and> ConvertADCReadingToPressure 1696 pressureTable = Some (Inr 10000)
   \<and> ConvertADCReadingToPressure 14073 pressureTable = Some (Inr 100000)"
  using exact_match [of 0] exact_match [of 90]
  by (simp add: pressureTable_length pressureTable_first pressureTable_last)

text \<open>
  C2. A reading strictly between the ADC values of two neighbouring entries
  \<open>(P1, ADC1)\<close> and \<open>(P2, ADC2)\<close> of the reference table converts to
  \<open>P1 + ((P2 - P1) / (ADC2 - ADC1)) * (adcReading - ADC1)\<close>, the truncating division
  taken before the multiplication.
\<close>

theorem interpolation_between:
  assumes "i < 90"
    and "adc (pressureTable ! i) < adcReading"
    and "adcReading < adc (pressureTable ! Suc i)"
  shows "ConvertADCReadingToPressure adcReading pressureTable
     = Some (Inr (pressure (pressureTable ! i)
          + ((pressure (pressureTable ! Suc i) - pressure (pressureTable ! i))
               sdiv (adc (pressureTable ! Suc i) - adc (pressureTable ! i)))
            * (adcReading - adc (pressureTable ! i))))"
  using convert_segment [of i adcReading] assms
  by (simp add: segment_value_def)

theorem interpolation_between_witness:
  "(0::nat) < 90 \<and> adc (pressureTable ! 0) < 1800 \<and> 1800 < adc (pressureTable ! Suc 0)
   \<and> ConvertADCReadingToPressure 1800 pressureTable = Some (Inr 10416)"
proof -
  have e: "pressureTable ! 0 = ent 10000 1696" "pressureTable ! Suc 0 = ent 11000 1909"
    by (simp_all add: pressureTable_def)
  have "(1000::int) sdiv 213 = 4"
    by (simp add: signed_divide_int_def)
  with interpolation_between [of 0 1800] e show ?thesis
    by simp
qed

text \<open>
  C3. Out of range the conversion is to return \<open>slope * adcReading + intercept\<close>, the line
  through the four sums over all entries of the table, each divided by the number of
  points, 90 as the claim counts them. The code accumulates exactly these sums, but at
  the reading 1000 it does not return the value of that line: lines 235 to 238 divide by
  \<^verbatim>\<open>TABLE_SIZE\<close>, whose definition has no outer parentheses, so each accumulator becomes
  \<open>sum / 91 - 1\<close> instead of \<open>sum / 90\<close>. The code returns 7580; with the value of the
  macro, 90, as the divisor the line gives 8144.
\<close>

theorem mean_division_divergence:
  "sum_loop pressureTable 0 zero_sums = Inr (spec_sums pressureTable)
   \<and> TABLE_SIZE = 90
   \<and> spec_means TABLE_SIZE (spec_sums pressureTable)
       = \<lparr>sumOfADC_iTimesP_i = 5293416, sumOfADC_i = 7797, sumOfP_i = 556,
          sumOfADC_iSquared = 74770650\<rparr>
   \<and> divide_sums (spec_sums pressureTable)
       = \<lparr>sumOfADC_iTimesP_i = 5235245, sumOfADC_i = 7711, sumOfP_i = 549,
          sumOfADC_iSquared = 73948994\<rparr>
   \<and> \<not> in_table_range 1000 (pressureTable ! 0) (pressureTable ! 90)
   \<and> spec_extrapolate 90 1000 pressureTable = 8144
   \<and> ConvertADCReadingToPressure 1000 pressureTable = Some (Inr 7580)
   \<and> ConvertADCReadingToPressure 1000 pressureTable
        \<noteq> Some (Inr (spec_extrapolate 90 1000 pressureTable))"
proof -
  have "extrapolate 1000 pressureTable = Inr 7580"
    by (simp add: extrapolate_def extrapolate_wide_pressureTable is_int32_def to_int32_def)
  then have code: "ConvertADCReadingToPressure 1000 pressureTable = Some (Inr 7580)"
    by (simp add: convert_outside)
  have means: "spec_means 90 (spec_sums pressureTable)
       = \<lparr>sumOfADC_iTimesP_i = 5293416, sumOfADC_i = 7797, sumOfP_i = 556,
          sumOfADC_iSquared = 74770650\<rparr>"
    by (simp add: spec_sums_pressureTable spec_means_def signed_divide_int_def)
  have line: "spec_extrapolate 90 1000 pressureTable = 8144"
    by (simp add: spec_extrapolate_def means spec_slope_def spec_intercept_def
        FIXED_POINT_ARITH_def signed_divide_int_def)
  have out: "\<not> in_table_range 1000 (pressureTable ! 0) (pressureTable ! 90)"
    by (simp add: in_table_range_def pressureTable_first)
  from code means line out show ?thesis
    by (simp add: sum_loop_pressureTable spec_sums_pressureTable divide_sums_pressureTable
        TABLE_SIZE_eq)
qed

text \<open>
  C4. Between the first and the last ADC value of the reference table the conversion is
  non-decreasing in the reading.
\<close>

theorem monotone_in_range:
  assumes lo: "adc (pressureTable ! 0) \<le> a" and ab: "a \<le> b" and hi: "b \<le> adc (pressureTable ! 90)"
  shows "\<exists>va vb. ConvertADCReadingToPressure a pressureTable = Some (Inr va)
           \<and> ConvertADCReadingToPressure b pressureTable = Some (Inr vb) \<and> va \<le> vb"
proof (cases "b = adc (pressureTable ! 90)")
  case True
  have vb: "ConvertADCReadingToPressure b pressureTable = Some (Inr 100000)"
    using convert_entry [OF pressureTable_ascending, of 90] True
    by (simp add: pressureTable_last)
  show ?thesis
  proof (cases "a = b")
    case True
    with vb show ?thesis by simp
  next
    case False
    with ab True have "a < adc (pressureTable ! 90)" by simp
    from segment_exists [OF lo this] obtain i where
      i: "i < 90" "adc (pressureTable ! i) \<le> a" "a < adc (pressureTable ! Suc i)" by blast
    from segment_value_bounds(2) [of i a] i have "segment_value i a \<le> 100000" by simp
    with convert_segment [OF i] vb show ?thesis by simp
  qed
next
  case False
  with hi have b90: "b < adc (pressureTable ! 90)" by simp
  with ab have a90: "a < adc (pressureTable ! 90)" by simp
  from segment_exists [OF lo a90] obtain i where
    i: "i < 90" "adc (pressureTable ! i) \<le> a" "a < adc (pressureTable ! Suc i)" by blast
  from lo ab have "adc (pressureTable ! 0) \<le> b" by simp
  from segment_exists [OF this b90] obtain j where
    j: "j < 90" "adc (pressureTable ! j) \<le> b" "b < adc (pressureTable ! Suc j)" by blast
  have va: "ConvertADCReadingToPressure a pressureTable = Some (Inr (segment_value i a))"
    by (rule convert_segment [OF i])
  have vb: "ConvertADCReadingToPressure b pressureTable = Some (Inr (segment_value j b))"
    by (rule convert_segment [OF j])
  have "i \<le> j"
  proof (rule ccontr)
    assume "\<not> i \<le> j"
    then have "Suc j \<le> i" by simp
    with adc_ascending_nth_le [OF pressureTable_ascending, of "int (Suc j)" "int i"] i(1)
    have "adc (pressureTable ! Suc j) \<le> adc (pressureTable ! i)" by (simp add: nat_add_distrib)
    with i(2) ab j(3) show False by simp
  qed
  have "segment_value i a \<le> segment_value j b"
  proof (cases "i = j")
    case True
    let ?q = "1000 div (adc (pressureTable ! Suc i) - adc (pressureTable ! i))"
    have "0 \<le> ?q"
      using i by (simp add: pos_imp_zdiv_nonneg_iff)
    then have "?q * (a - adc (pressureTable ! i)) \<le> ?q * (b - adc (pressureTable ! i))"
      using ab by (simp add: mult_left_mono)
    then show ?thesis
      using True i(1) by (simp add: segment_value_eq)
  next
    case False
    with \<open>i \<le> j\<close> have "Suc i \<le> j" by simp
    moreover have "segment_value i a \<le> 11000 + 1000 * int i"
      using segment_value_bounds(2) [of i a] i by simp
    moreover have "10000 + 1000 * int j \<le> segment_value j b"
      using segment_value_bounds(1) [of j b] j by simp
    ultimately show ?thesis by simp
  qed
  with va vb show ?thesis by simp
qed

theorem monotone_in_range_witness:
  "adc (pressureTable ! 0) \<le> 1800 \<and> (1800::int) \<le> 14000 \<and> 14000 \<le> adc (pressureTable ! 90)
   \<and> (\<exists>va vb. ConvertADCReadingToPressure 1800 pressureTable = Some (Inr va)
           \<and> ConvertADCReadingToPressure 14000 pressureTable = Some (Inr vb) \<and> va \<le> vb)"
  using monotone_in_range [of 1800 14000]
  by (simp add: pressureTable_first pressureTable_last)

text \<open>
  C5. For every \<^verbatim>\<open>int\<close> reading the conversion on the reference table returns, and
  returns a pressure, never an error: no read outside the table, no division by zero, no
  signed overflow. In range the result comes from the table (search and interpolation),
  out of range from the extrapolation.
\<close>

theorem conversion_total:
  assumes "is_int32 adcReading"
  shows "\<exists>v. ConvertADCReadingToPressure adcReading pressureTable = Some (Inr v) \<and> is_int32 v
     \<and> (if in_table_range adcReading (pressureTable ! 0) (pressureTable ! 90)
         then 10000 \<le> v \<and> v \<le> 100000
         else extrapolate adcReading pressureTable = Inr v)"
proof (cases "in_table_range adcReading (pressureTable ! 0) (pressureTable ! 90)")
  case True
  then have rng: "adc (pressureTable ! 0) \<le> adcReading" "adcReading \<le> adc (pressureTable ! 90)"
    by (simp_all add: in_table_range_def)
  show ?thesis
  proof (cases "adcReading = adc (pressureTable ! 90)")
    case eq: True
    have "ConvertADCReadingToPressure adcReading pressureTable = Some (Inr 100000)"
      using convert_entry [OF pressureTable_ascending, of 90] eq
      by (simp add: pressureTable_last)
    then show ?thesis using True by (simp add: is_int32_def)
  next
    case False
    with rng have "adcReading < adc (pressureTable ! 90)" by simp
    from segment_exists [OF rng(1) this] obtain i where
      i: "i < 90" "adc (pressureTable ! i) \<le> adcReading" "adcReading < adc (pressureTable ! Suc i)"
      by blast
    from segment_value_bounds [of i adcReading] i
    have "10000 \<le> segment_value i adcReading" "segment_value i adcReading \<le> 100000"
      by simp_all
    with convert_segment [OF i] True show ?thesis
      by (simp add: is_int32_def)
  qed
next
  case False
  then have out: "adcReading < 1696 \<or> 14073 < adcReading"
    by (auto simp add: in_table_range_def pressureTable_first pressureTable_last)
  have "extrapolate adcReading pressureTable = Inr (to_int32 (6 * adcReading + 1580))"
    using assms by (simp add: extrapolate_def extrapolate_wide_pressureTable)
  with convert_outside [OF out] False show ?thesis
    by (simp add: to_int32_range)
qed

theorem conversion_total_witness:
  "is_int32 1000 \<and> is_int32 1800
   \<and> ConvertADCReadingToPressure 1000 pressureTable = Some (Inr 7580)
   \<and> (\<exists>v. ConvertADCReadingToPressure 1800 pressureTable = Some (Inr v) \<and> 10000 \<le> v \<and> v \<le> 100000)"
proof -
  have t: "is_int32 1000" "is_int32 1800"
    by (simp_all add: is_int32_def)
  have "extrapolate 1000 pressureTable = Inr 7580"
    by (simp add: extrapolate_def extrapolate_wide_pressureTable t to_int32_def)
  with conversion_total [OF t(1)] conversion_total [OF t(2)] t show ?thesis
    by (auto simp add: in_table_range_def pressureTable_first pressureTable_last)
qed

text \<open>
  C6. On the reference table the readings 1000 and 20000 are out of range and take the
  extrapolation; the first converts to a value below 10000, the second to a value above
  100000.
\<close>

theorem extrapolated_scenarios:
  "\<not> in_table_range 1000 (pressureTable ! 0) (pressureTable ! 90)
   \<and> ConvertADCReadingToPressure 1000 pressureTable = Some (extrapolate 1000 pressureTable)
   \<and> ConvertADCReadingToPressure 1000 pressureTable = Some (Inr 7580)
   \<and> (7580 :: int) < 10000
   \<and> \<not> in_table_range 20000 (pressureTable ! 0) (pressureTable ! 90)
   \<and> ConvertADCReadingToPressure 20000 pressureTable = Some (extrapolate 20000 pressureTable)
   \<and> ConvertADCReadingToPressure 20000 pressureTable = Some (Inr 121580)
   \<and> (121580 :: int) > 100000"
proof -
  have "extrapolate 1000 pressureTable = Inr 7580" "extrapolate 20000 pressureTable = Inr 121580"
    by (simp_all add: extrapolate_def extrapolate_wide_pressureTable is_int32_def to_int32_def)
  moreover have "ConvertADCReadingToPressure 1000 pressureTable = Some (extrapolate 1000 pressureTable)"
    "ConvertADCReadingToPressure 20000 pressureTable = Some (extrapolate 20000 pressureTable)"
    by (simp_all add: convert_outside)
  ultimately show ?thesis
    by (simp add: in_table_range_def pressureTable_first pressureTable_last)
qed

text \<open>
  C7, as amended. For a reading strictly between the first and the last ADC value of a
  table of 91 entries, the search loop ends: it has exited after at most 8 passes (the
  window of width 90 is halved seven times, and one more pass detects the collapse);
  every pass that does not exit makes the window strictly narrower; and on a window of
  two neighbouring indices the pass exits.
\<close>

theorem search_terminates:
  assumes len: "int (length tbl) = table_entries"
    and lo: "adc (tbl ! 0) < adcReading" and hi: "adcReading < adc (tbl ! 90)"
  shows "exited (search_passes 8 adcReading tbl initial_search)
     \<and> search_loop adcReading tbl initial_search
         = Some (search_passes 8 adcReading tbl initial_search)
     \<and> (\<forall>j s s'. search_passes j adcReading tbl initial_search = Inr s \<and> readingFound s = 0
            \<and> loop_body adcReading tbl s = Inr s' \<and> readingFound s' = 0
          \<longrightarrow> searchWindowEnd s' - searchWindowStart s'
                < searchWindowEnd s - searchWindowStart s)
     \<and> (\<forall>j s. search_passes j adcReading tbl initial_search = Inr s \<and> readingFound s = 0
            \<and> searchWindowEnd s = searchWindowStart s + 1
          \<longrightarrow> exited (loop_body adcReading tbl s))"
proof -
  have inv0: "window_inv adcReading tbl initial_search"
    by (rule window_inv_initial [OF lo hi])
  have "exited (search_passes (Suc 7) adcReading tbl initial_search)"
    by (rule search_passes_exit [OF len inv0]) (simp_all add: initial_search_eq)
  then have ex: "exited (search_passes 8 adcReading tbl initial_search)"
    by simp
  have shrink: "searchWindowEnd s' - searchWindowStart s' < searchWindowEnd s - searchWindowStart s"
    if "search_passes j adcReading tbl initial_search = Inr s" "readingFound s = 0"
      "loop_body adcReading tbl s = Inr s'" "readingFound s' = 0" for j s s'
    using loop_body_shrinks [OF len search_passes_inv [OF len inv0 that(1,2)] that(2,3,4)] .
  have collapse: "exited (loop_body adcReading tbl s)"
    if "search_passes j adcReading tbl initial_search = Inr s" "readingFound s = 0"
      "searchWindowEnd s = searchWindowStart s + 1" for j s
  proof -
    have inv: "window_inv adcReading tbl s"
      by (rule search_passes_inv [OF len inv0 that(1,2)])
    then have "midPoint s = searchWindowStart s"
      using that(3) by (simp add: window_inv_def)
    with loop_body_step [OF len inv that(2)] show ?thesis by auto
  qed
  from ex search_loop_passes [OF ex] shrink collapse show ?thesis
    by blast
qed

theorem search_terminates_witness:
  "int (length pressureTable) = table_entries
   \<and> adc (pressureTable ! 0) < 14000 \<and> 14000 < adc (pressureTable ! 90)
   \<and> search_loop 14000 pressureTable initial_search
       = Some (Inr \<lparr>searchWindowStart = 89, searchWindowEnd = 90, midPoint = 89,
                    readingFound = 1, pressure_local = 99552\<rparr>)"
proof -
  have h: "int (length pressureTable) = table_entries"
    "adc (pressureTable ! 0) < 14000" "14000 < adc (pressureTable ! 90)"
    by (simp_all add: table_entries_def pressureTable_first pressureTable_last)
  from search_terminates [OF h] h show ?thesis
    by (simp add: search_passes_14000)
qed

text \<open>
  C7 as stated fails on the reference table at the reading 14000. The table has 91
  entries, \<open>2 ^ 6 < 91 \<le> 2 ^ 7\<close>, so the stated bound is 7 passes; after 7 passes the
  loop has not exited.
\<close>

theorem seven_passes_counterexample:
  "adc (pressureTable ! 0) < 14000 \<and> 14000 < adc (pressureTable ! 90)
   \<and> (2 :: nat) ^ 6 < length pressureTable \<and> length pressureTable \<le> 2 ^ 7
   \<and> search_passes 7 14000 pressureTable initial_search =
       Inr \<lparr>searchWindowStart = 89, searchWindowEnd = 90, midPoint = 89, readingFound = 0,
            pressure_local = 0\<rparr>
   \<and> \<not> exited (search_passes 7 14000 pressureTable initial_search)"
  by (simp add: search_passes_14000 exited_def pressureTable_first pressureTable_last
      pressureTable_length)

text \<open>
  C9. The extrapolated value is formed in 64 bits and stored in 32: for the reading
  357914000 the 64-bit value 2147485580 does not fit, the conversion returns it reduced
  modulo \<open>2 ^ 32\<close>, and the smaller reading 357913000 converts to a larger pressure, so the
  conversion is not monotone over all \<^verbatim>\<open>int\<close> readings.
\<close>

theorem narrowing_wraps:
  "is_int32 357913000 \<and> is_int32 357914000
   \<and> \<not> in_table_range 357914000 (pressureTable ! 0) (pressureTable ! 90)
   \<and> extrapolate_wide 357914000 pressureTable = Inr 2147485580
   \<and> \<not> is_int32 2147485580
   \<and> ConvertADCReadingToPressure 357914000 pressureTable = Some (Inr (2147485580 - 2 ^ 32))
   \<and> ConvertADCReadingToPressure 357913000 pressureTable = Some (Inr 2147479580)
   \<and> (357913000 :: int) < 357914000
   \<and> (2147485580 - 2 ^ 32 :: int) < 2147479580"
proof -
  have t: "is_int32 357913000" "is_int32 357914000"
    by (simp_all add: is_int32_def)
  have w: "extrapolate_wide 357914000 pressureTable = Inr 2147485580"
    "extrapolate_wide 357913000 pressureTable = Inr 2147479580"
    by (simp_all add: extrapolate_wide_pressureTable t)
  have "ConvertADCReadingToPressure 357914000 pressureTable = Some (Inr (2147485580 - 2 ^ 32))"
    "ConvertADCReadingToPressure 357913000 pressureTable = Some (Inr 2147479580)"
    by (simp_all add: convert_outside extrapolate_def w to_int32_def)
  with t w show ?thesis
    by (simp add: in_table_range_def pressureTable_first pressureTable_last is_int32_def)
qed

text \<open>
  C10. Whenever a pass of the search loop starts with \<^verbatim>\<open>midPoint == searchWindowStart\<close>,
  the window is two neighbouring indices inside the table, the reading lies strictly
  between their ADC values, and the pass interpolates between these two entries.
\<close>

theorem interpolation_window:
  assumes len: "int (length tbl) = table_entries"
    and lo: "adc (tbl ! 0) < adcReading" and hi: "adcReading < adc (tbl ! 90)"
    and reach: "search_passes j adcReading tbl initial_search = Inr s"
    and nf: "readingFound s = 0"
    and mid: "midPoint s = searchWindowStart s"
  shows "searchWindowEnd s = searchWindowStart s + 1
     \<and> 0 \<le> searchWindowStart s \<and> searchWindowEnd s \<le> 90
     \<and> adc (tbl ! nat (searchWindowStart s)) < adcReading
     \<and> adcReading < adc (tbl ! nat (searchWindowEnd s))
     \<and> loop_body adcReading tbl s =
         (case interpolate (tbl ! nat (searchWindowStart s)) (tbl ! nat (searchWindowEnd s))
                 adcReading of
            Inl err \<Rightarrow> Inl err
          | Inr p \<Rightarrow> Inr (s\<lparr>readingFound := 1, pressure_local := p\<rparr>))"
proof -
  have inv: "window_inv adcReading tbl s"
    by (rule search_passes_inv [OF len window_inv_initial [OF lo hi] reach nf])
  with loop_body_cases [OF len inv] mid show ?thesis
    by (auto simp add: window_inv_def TABLE_SIZE_eq)
qed

theorem interpolation_window_witness:
  "int (length pressureTable) = table_entries
   \<and> adc (pressureTable ! 0) < 14000 \<and> 14000 < adc (pressureTable ! 90)
   \<and> search_passes 7 14000 pressureTable initial_search =
       Inr \<lparr>searchWindowStart = 89, searchWindowEnd = 90, midPoint = 89, readingFound = 0,
            pressure_local = 0\<rparr>
   \<and> (90 :: int) = 89 + 1
   \<and> adc (pressureTable ! 89) < 14000 \<and> 14000 < adc (pressureTable ! 90)"
proof -
  have h: "int (length pressureTable) = table_entries"
    "adc (pressureTable ! 0) < 14000" "14000 < adc (pressureTable ! 90)"
    by (simp_all add: table_entries_def pressureTable_first pressureTable_last)
  from interpolation_window [OF h search_passes_14000(1)] h show ?thesis
    by (simp add: search_passes_14000)
qed

end
